theory Spec2Isabelle
  imports Complex_Main "HOL-Library.Multiset" "HOL-Library.Word"
begin

section \<open>The hand-rolled parallel transform-reduce of \<^verbatim>\<open>src/main.cpp\<close>\<close>

subsection \<open>The library fold\<close>

text \<open>
  \<^verbatim>\<open>std::transform_reduce(first, last, init, reduce_op, transform_op)\<close> (the overload
  without an execution policy) is the standard library's, not this program's, and the C++
  standard leaves the grouping of the applications of \<^verbatim>\<open>reduce_op\<close> to the library.
  The definition follows libstdc++ on random-access iterators, which the iterators of the
  \<^verbatim>\<open>std::vector\<close> of \<^verbatim>\<open>main\<close> are:
  \<^verbatim>\<open>
  while ((last - first) >= 4) {
      T v1 = reduce_op(transform_op(first[0]), transform_op(first[1]));
      T v2 = reduce_op(transform_op(first[2]), transform_op(first[3]));
      T v3 = reduce_op(v1, v2);
      init = reduce_op(init, v3);
      first += 4;
  }
  for (; first != last; ++first)
      init = reduce_op(init, transform_op(*first));
  return init;
  \<close>
  The first equation is one round of the \<^verbatim>\<open>while\<close> loop; the second, for fewer than four
  elements, is the \<^verbatim>\<open>for\<close> loop. For an associative operation the value is that of the
  plain left-to-right fold, the fold of section 4.2 of the specification (lemma
  \<open>transform_reduce_assoc\<close>). The sequence comes first, as the iterator pair does in the
  source.
\<close>

fun transform_reduce :: "'a list \<Rightarrow> 'b \<Rightarrow> ('b \<Rightarrow> 'b \<Rightarrow> 'b) \<Rightarrow> ('a \<Rightarrow> 'b) \<Rightarrow> 'b" where
  "transform_reduce (x0 # x1 # x2 # x3 # xs) init reduce_op transform_op =
     (let v1 = reduce_op (transform_op x0) (transform_op x1);
          v2 = reduce_op (transform_op x2) (transform_op x3);
          v3 = reduce_op v1 v2
      in transform_reduce xs (reduce_op init v3) reduce_op transform_op)"
| "transform_reduce xs init reduce_op transform_op =
     foldl (\<lambda>acc x. reduce_op acc (transform_op x)) init xs"

subsection \<open>Workers\<close>

text \<open>
  A worker is the closure handed to \<^verbatim>\<open>threads.emplace_back\<close> (lines 55-60): it captures
  the slot index \<^verbatim>\<open>i\<close> and the two iterators \<^verbatim>\<open>bs\<close> and \<^verbatim>\<open>be\<close>, kept here as
  offsets from \<^verbatim>\<open>first\<close>. The operations it also captures are the same for every worker
  and are passed to \<open>run_worker\<close> instead.
\<close>

record worker =
  slot :: nat
  bs :: nat
  be :: nat

text \<open>
  The elements of the half-open iterator range \<^verbatim>\<open>[bs, be)\<close>.
\<close>

definition block_elems :: "'a list \<Rightarrow> worker \<Rightarrow> 'a list" where
  "block_elems xs w = take (be w - bs w) (drop (bs w) xs)"

text \<open>
  The loop of lines 47-63. \<^verbatim>\<open>n\<close> is the length of the sequence: \<^verbatim>\<open>std::advance\<close> of
  \<^verbatim>\<open>block_end\<close> beyond \<^verbatim>\<open>last\<close> has no defined behaviour in C++, and is the result
  \<open>None\<close> here. The counters are \<^verbatim>\<open>std::size_t\<close> in the source and \<open>nat\<close> here: none of
  them exceeds the length of the sequence once \<^verbatim>\<open>K\<close> is clamped, so nothing wraps.
\<close>

function spawn_loop ::
  "nat \<Rightarrow> nat \<Rightarrow> nat \<Rightarrow> nat \<Rightarrow> nat \<Rightarrow> nat \<Rightarrow> worker list \<Rightarrow> worker list option" where
  "spawn_loop n K base rem i block_start threads =
     (if i < K then
        (let block_size = base + (if i < rem then 1 else 0);
             block_end = block_start + block_size
         in if n < block_end then None
            else spawn_loop n K base rem (i + 1) block_end
                   (threads @ [\<lparr>slot = i, bs = block_start, be = block_end\<rparr>]))
      else Some threads)"
  by pat_completeness auto
termination
  by (relation "measure (\<lambda>(n, K, base, rem, i, block_start, threads). K - i)") auto

declare spawn_loop.simps [simp del]

text \<open>
  The body of one thread (lines 56-59): it stores the fold of its block, seeded with the
  value-initialized \<^verbatim>\<open>T{}\<close>, in its own slot of \<^verbatim>\<open>partials\<close>. \<^verbatim>\<open>T{}\<close> is the \<open>0\<close> of
  the type class \<open>zero\<close>: a value fixed by the type \<^verbatim>\<open>T\<close> alone. A slot outside
  \<^verbatim>\<open>partials\<close> or a range outside the sequence has no defined behaviour (\<open>None\<close>).
\<close>

definition run_worker ::
  "'a list \<Rightarrow> ('b::zero \<Rightarrow> 'b \<Rightarrow> 'b) \<Rightarrow> ('a \<Rightarrow> 'b) \<Rightarrow> worker \<Rightarrow> 'b list \<Rightarrow> 'b list option" where
  "run_worker xs reduce_op transform_op w partials =
     (if slot w < length partials \<and> bs w \<le> be w \<and> be w \<le> length xs
      then Some (partials[slot w := transform_reduce (block_elems xs w) 0 reduce_op transform_op])
      else None)"

text \<open>
  Lines 65-66: every thread has run when the joins return. The threads are run here in the
  order of the \<^verbatim>\<open>threads\<close> vector; lemma \<open>join_all_schedule\<close> below shows that any other
  order of completion leaves the same \<^verbatim>\<open>partials\<close>, since no two workers share a slot and
  none writes the sequence.
\<close>

fun join_all ::
  "'a list \<Rightarrow> ('b::zero \<Rightarrow> 'b \<Rightarrow> 'b) \<Rightarrow> ('a \<Rightarrow> 'b) \<Rightarrow> worker list \<Rightarrow> 'b list \<Rightarrow> 'b list option" where
  "join_all xs reduce_op transform_op [] partials = Some partials"
| "join_all xs reduce_op transform_op (w # ws) partials =
     (case run_worker xs reduce_op transform_op w partials of
        None \<Rightarrow> None
      | Some partials' \<Rightarrow> join_all xs reduce_op transform_op ws partials')"

subsection \<open>The engine\<close>

text \<open>
  What a call leaves behind: the threads it spawned, the \<^verbatim>\<open>partials\<close> vector after the
  joins, and the value it returns. A call that returns at line 32 has created neither
  vector; both are empty in its record.
\<close>

record 'b run =
  threads :: "worker list"
  partials :: "'b list"
  result :: 'b

definition manual_parallel_transform_reduce_run ::
  "'a list \<Rightarrow> 'b::zero \<Rightarrow> ('b \<Rightarrow> 'b \<Rightarrow> 'b) \<Rightarrow> ('a \<Rightarrow> 'b) \<Rightarrow> nat \<Rightarrow> 'b run option" where
  "manual_parallel_transform_reduce_run xs init reduce_op transform_op K0 =
     (let n = length xs in
      if n \<le> 0 \<or> K0 = 0 then Some \<lparr>threads = [], partials = [], result = init\<rparr>
      else
        (let K = (if n < K0 then n else K0);
             partials0 = replicate K 0;
             total = n;
             base = total div K;
             rem = total mod K
         in case spawn_loop n K base rem 0 0 [] of
              None \<Rightarrow> None
            | Some ths \<Rightarrow>
                (case join_all xs reduce_op transform_op ths partials0 of
                   None \<Rightarrow> None
                 | Some ps \<Rightarrow>
                     Some \<lparr>threads = ths, partials = ps, result = foldl reduce_op init ps\<rparr>)))"

text \<open>The value returned by \<^verbatim>\<open>manual_parallel_transform_reduce\<close> (lines 23-73).\<close>

definition manual_parallel_transform_reduce ::
  "'a list \<Rightarrow> 'b::zero \<Rightarrow> ('b \<Rightarrow> 'b \<Rightarrow> 'b) \<Rightarrow> ('a \<Rightarrow> 'b) \<Rightarrow> nat \<Rightarrow> 'b option" where
  "manual_parallel_transform_reduce xs init reduce_op transform_op K =
     map_option result (manual_parallel_transform_reduce_run xs init reduce_op transform_op K)"

text \<open>The indices of the sequence that the workers read, in the order of the workers.\<close>

definition indices_read :: "worker list \<Rightarrow> nat list" where
  "indices_read ws = concat (map (\<lambda>w. [bs w..<be w]) ws)"

subsection \<open>The sweep driver\<close>

text \<open>
  Lines 92-93 of \<^verbatim>\<open>main\<close>: \<^verbatim>\<open>unsigned hw = std::thread::hardware_concurrency();
  if (!hw) hw = 1;\<close>, with \<^verbatim>\<open>unsigned\<close> a 32-bit word.
\<close>

definition hardware_threads :: "32 word \<Rightarrow> 32 word" where
  "hardware_threads hc = (if hc = 0 then 1 else hc)"

text \<open>
  The bound of the loop of line 149: \<^verbatim>\<open>hw * 2\<close> is a product of \<^verbatim>\<open>unsigned\<close>, so it
  wraps at \<open>2 ^ 32\<close>, and is then compared with the \<^verbatim>\<open>std::size_t\<close> counter \<^verbatim>\<open>K\<close>.
\<close>

definition sweep_limit :: "32 word \<Rightarrow> nat" where
  "sweep_limit hw = unat (hw * 2)"

text \<open>
  The loop of lines 149-167. The time \<^verbatim>\<open>measure_ms\<close> returns in iteration \<^verbatim>\<open>K\<close> is an
  input of the model, \<open>t K\<close>: a \<^verbatim>\<open>double\<close> that holds a wall-clock duration in
  milliseconds, read as the real number it denotes. Only \<^verbatim>\<open><\<close> is applied to it.
\<close>

function sweep_loop :: "(nat \<Rightarrow> real) \<Rightarrow> nat \<Rightarrow> nat \<Rightarrow> real \<Rightarrow> nat \<Rightarrow> real \<times> nat" where
  "sweep_loop t hi K best_time best_K =
     (if K \<le> hi then
        (if t K < best_time then sweep_loop t hi (K + 1) (t K) K
         else sweep_loop t hi (K + 1) best_time best_K)
      else (best_time, best_K))"
  by pat_completeness auto
termination
  by (relation "measure (\<lambda>(t, hi, K, best_time, best_K). Suc hi - K)") auto

declare sweep_loop.simps [simp del]

text \<open>
  Lines 146-167 for one size: \<^verbatim>\<open>best_time = 1e18\<close>, \<^verbatim>\<open>best_K = 1\<close>, then the loop.
  The result is the pair of both variables after the loop; line 169 prints \<^verbatim>\<open>best_K\<close>.
\<close>

definition sweep :: "32 word \<Rightarrow> (nat \<Rightarrow> real) \<Rightarrow> real \<times> nat" where
  "sweep hc t = (let hw = hardware_threads hc in sweep_loop t (sweep_limit hw) 1 (10 ^ 18) 1)"

text \<open>The table printed by line 161: one row \<^verbatim>\<open>K, t\<close> for each iteration, in order.\<close>

definition sweep_table :: "32 word \<Rightarrow> (nat \<Rightarrow> real) \<Rightarrow> (nat \<times> real) list" where
  "sweep_table hc t = map (\<lambda>K. (K, t K)) [1..<Suc (sweep_limit (hardware_threads hc))]"

subsection \<open>The specification's reference fold\<close>

text \<open>
  The sequential left fold of the combine operation over the transformed elements,
  started from the initial value, in the words of the specification.
\<close>

definition sequential_left_fold :: "'a list \<Rightarrow> 'b \<Rightarrow> ('b \<Rightarrow> 'b \<Rightarrow> 'b) \<Rightarrow> ('a \<Rightarrow> 'b) \<Rightarrow> 'b" where
  "sequential_left_fold xs init combine_op transform_op = foldl combine_op init (map transform_op xs)"

subsection \<open>Closed forms used in the proofs\<close>

text \<open>
  The offset at which block \<open>i\<close> starts when the first \<open>rem\<close> blocks have \<open>base + 1\<close>
  elements and the others \<open>base\<close>.
\<close>

definition block_offset :: "nat \<Rightarrow> nat \<Rightarrow> nat \<Rightarrow> nat" where
  "block_offset base rem i = i * base + min i rem"

definition nth_worker :: "nat \<Rightarrow> nat \<Rightarrow> nat \<Rightarrow> worker" where
  "nth_worker base rem i =
     \<lparr>slot = i, bs = block_offset base rem i, be = block_offset base rem (Suc i)\<rparr>"

definition partition_workers :: "nat \<Rightarrow> nat \<Rightarrow> worker list" where
  "partition_workers n K = map (nth_worker (n div K) (n mod K)) [0..<K]"

text \<open>What a worker stores in its slot.\<close>

definition block_value :: "'a list \<Rightarrow> ('b::zero \<Rightarrow> 'b \<Rightarrow> 'b) \<Rightarrow> ('a \<Rightarrow> 'b) \<Rightarrow> worker \<Rightarrow> 'b" where
  "block_value xs reduce_op transform_op w =
     transform_reduce (block_elems xs w) 0 reduce_op transform_op"

text \<open>A worker whose slot and range exist.\<close>

definition worker_ok :: "nat \<Rightarrow> nat \<Rightarrow> worker \<Rightarrow> bool" where
  "worker_ok n K w \<longleftrightarrow> slot w < K \<and> bs w \<le> be w \<and> be w \<le> n"

section \<open>Properties\<close>

subsection \<open>The partition loop\<close>

lemma block_offset_0 [simp]: "block_offset base rem 0 = 0"
  by (simp add: block_offset_def)

lemma block_offset_Suc:
  "block_offset base rem (Suc i) = block_offset base rem i + (base + (if i < rem then 1 else 0))"
  by (simp add: block_offset_def min_def)

lemma block_offset_mono: "i \<le> j \<Longrightarrow> block_offset base rem i \<le> block_offset base rem j"
  unfolding block_offset_def by (meson add_mono min.mono mult_le_mono1 order_refl)

lemma block_offset_total: "0 < K \<Longrightarrow> block_offset (n div K) (n mod K) K = n"
proof -
  assume "0 < K"
  then have "n mod K < K" by simp
  then have "min K (n mod K) = n mod K" by simp
  then show ?thesis by (simp add: block_offset_def)
qed

lemma spawn_loop_closed:
  "i \<le> K \<Longrightarrow> block_offset base rem K \<le> n \<Longrightarrow>
   spawn_loop n K base rem i (block_offset base rem i) ths =
     Some (ths @ map (nth_worker base rem) [i..<K])"
proof (induction "K - i" arbitrary: i ths)
  case 0
  then have "i = K" by simp
  then show ?case by (simp add: spawn_loop.simps)
next
  case (Suc d)
  then have lt: "i < K" and d: "d = K - Suc i" and le: "Suc i \<le> K" by simp_all
  have off: "block_offset base rem i + (base + (if i < rem then 1 else 0)) = block_offset base rem (Suc i)"
    by (simp add: block_offset_Suc)
  have inr: "\<not> n < block_offset base rem (Suc i)"
    using block_offset_mono [OF le, of base rem] Suc.prems(2) by simp
  have step: "spawn_loop n K base rem i (block_offset base rem i) ths =
      spawn_loop n K base rem (Suc i) (block_offset base rem (Suc i))
        (ths @ [nth_worker base rem i])"
  proof -
    have "spawn_loop n K base rem i (block_offset base rem i) ths =
      spawn_loop n K base rem (i + 1) (block_offset base rem (Suc i))
        (ths @ [nth_worker base rem i])"
      using lt inr by (subst spawn_loop.simps) (simp add: Let_def off nth_worker_def del: One_nat_def)
    then show ?thesis by simp
  qed
  show ?case
    using Suc.hyps(1) [OF d le Suc.prems(2), of "ths @ [nth_worker base rem i]"] lt
    by (simp add: step upt_conv_Cons)
qed

lemma spawn_loop_partition:
  assumes "0 < K"
  shows "spawn_loop n K (n div K) (n mod K) 0 0 [] = Some (partition_workers n K)"
  using spawn_loop_closed [of 0 K "n div K" "n mod K" n "[]"] assms
  by (simp add: block_offset_total partition_workers_def)

lemma run_worker_ok:
  "worker_ok (length xs) (length ps) w \<Longrightarrow>
   run_worker xs reduce_op transform_op w ps = Some (ps[slot w := block_value xs reduce_op transform_op w])"
  by (simp add: run_worker_def worker_ok_def block_value_def)

lemma join_all_fold:
  "\<forall>w\<in>set ws. worker_ok (length xs) (length ps) w \<Longrightarrow>
   join_all xs reduce_op transform_op ws ps =
     Some (fold (\<lambda>w p. p[slot w := block_value xs reduce_op transform_op w]) ws ps)"
  by (induction ws arbitrary: ps) (simp_all add: run_worker_ok)

lemma fold_slots_in_order:
  "k \<le> length ps \<Longrightarrow>
   fold (\<lambda>w p. p[slot w := v w]) (map (nth_worker base rem) [0..<k]) ps =
     map (\<lambda>i. v (nth_worker base rem i)) [0..<k] @ drop k ps"
proof (induction k)
  case 0
  then show ?case by simp
next
  case (Suc k)
  then have lt: "k < length ps" by simp
  have "drop k ps = ps ! k # drop (Suc k) ps"
    using lt by (simp add: Cons_nth_drop_Suc)
  then show ?case
    using Suc lt by (simp add: list_update_append nth_worker_def)
qed

lemma nth_worker_ok:
  "i < K \<Longrightarrow> block_offset base rem K \<le> n \<Longrightarrow> worker_ok n K (nth_worker base rem i)"
  unfolding worker_ok_def nth_worker_def
  using block_offset_mono [of i "Suc i" base rem] block_offset_mono [of "Suc i" K base rem]
  by simp

lemma join_all_partition:
  assumes "0 < K"
  shows "join_all xs reduce_op transform_op (partition_workers (length xs) K) (replicate K 0) =
     Some (map (block_value xs reduce_op transform_op) (partition_workers (length xs) K))"
proof -
  let ?ws = "partition_workers (length xs) K"
  have ok: "\<forall>w\<in>set ?ws. worker_ok (length xs) (length (replicate K (0::'a))) w"
    using assms by (auto simp: partition_workers_def nth_worker_ok block_offset_total)
  show ?thesis
    unfolding join_all_fold [OF ok]
    unfolding partition_workers_def
    by (simp add: fold_slots_in_order comp_def)
qed

lemma run_nonempty:
  assumes "xs \<noteq> []" and "0 < K"
  shows "manual_parallel_transform_reduce_run xs init reduce_op transform_op K =
     Some \<lparr>threads = partition_workers (length xs) (min K (length xs)),
           partials = map (block_value xs reduce_op transform_op)
                        (partition_workers (length xs) (min K (length xs))),
           result = foldl reduce_op init
                      (map (block_value xs reduce_op transform_op)
                         (partition_workers (length xs) (min K (length xs))))\<rparr>"
proof -
  let ?n = "length xs"
  let ?K = "if ?n < K then ?n else K"
  have n: "0 < ?n" using assms by simp
  have K: "0 < ?K" using assms by simp
  have m: "min K ?n = ?K" by simp
  show ?thesis
    unfolding m
    using n assms(2)
    by (simp add: manual_parallel_transform_reduce_run_def Let_def
        spawn_loop_partition [OF K] join_all_partition [OF K] del: replicate.simps)
qed

lemma run_degenerate:
  "xs = [] \<or> K = 0 \<Longrightarrow>
   manual_parallel_transform_reduce_run xs init reduce_op transform_op K =
     Some \<lparr>threads = [], partials = [], result = init\<rparr>"
  by (auto simp: manual_parallel_transform_reduce_run_def)

lemma foldl_assoc_shift:
  assumes "\<forall>a b c. op (op a b) c = op a (op b c)"
  shows "op a (foldl (\<lambda>acc x. op acc (f x)) b ys) = foldl (\<lambda>acc x. op acc (f x)) (op a b) ys"
  using assms by (induction ys arbitrary: b) simp_all

lemma foldl_op_shift:
  assumes "\<forall>a b c. op (op a b) c = op a (op b c)"
  shows "op a (foldl op b ys) = foldl op (op a b) ys"
  using assms by (induction ys arbitrary: b) simp_all

lemma transform_reduce_assoc:
  assumes "\<forall>a b c. op (op a b) c = op a (op b c)"
  shows "transform_reduce xs init op f = foldl (\<lambda>acc x. op acc (f x)) init xs"
  using assms by (induction xs init op f rule: transform_reduce.induct) (simp_all add: Let_def)

lemma merge_blocks:
  assumes "\<forall>a b c. op (op a b) c = op a (op b c)" and "\<forall>a. op a e = a"
  shows "foldl op init (map (\<lambda>ys. transform_reduce ys e op f) yss) =
         transform_reduce (concat yss) init op f"
  unfolding transform_reduce_assoc [OF assms(1)]
proof (induction yss arbitrary: init)
  case Nil
  then show ?case by simp
next
  case (Cons ys yss)
  have "op init (foldl (\<lambda>acc x. op acc (f x)) e ys) = foldl (\<lambda>acc x. op acc (f x)) init ys"
    using foldl_assoc_shift [OF assms(1), of init f e ys] assms(2) by simp
  then show ?case
    using Cons.IH by simp
qed

lemma concat_blocks_upto:
  "concat (map (\<lambda>i. block_elems xs (nth_worker base rem i)) [0..<k]) =
     take (block_offset base rem k) xs"
proof (induction k)
  case 0
  then show ?case by simp
next
  case (Suc k)
  have le: "block_offset base rem k \<le> block_offset base rem (Suc k)"
    by (rule block_offset_mono) simp
  have "take (block_offset base rem (Suc k)) xs =
        take (block_offset base rem k) xs @
        take (block_offset base rem (Suc k) - block_offset base rem k)
          (drop (block_offset base rem k) xs)"
    using take_add [of "block_offset base rem k"
        "block_offset base rem (Suc k) - block_offset base rem k" xs] le
    by simp
  then show ?case
    using Suc by (simp add: block_elems_def nth_worker_def)
qed

lemma concat_partition:
  "0 < K \<Longrightarrow> concat (map (block_elems xs) (partition_workers (length xs) K)) = xs"
  using concat_blocks_upto [of xs "length xs div K" "length xs mod K" K]
  by (simp add: partition_workers_def comp_def block_offset_total)

lemma indices_read_upto:
  "indices_read (map (nth_worker base rem) [0..<k]) = [0..<block_offset base rem k]"
proof (induction k)
  case 0
  then show ?case by (simp add: indices_read_def)
next
  case (Suc k)
  have le: "block_offset base rem k \<le> block_offset base rem (Suc k)"
    by (rule block_offset_mono) simp
  have "[0..<block_offset base rem (Suc k)] =
        [0..<block_offset base rem k] @ [block_offset base rem k..<block_offset base rem (Suc k)]"
    using upt_add_eq_append [of 0 "block_offset base rem k"
        "block_offset base rem (Suc k) - block_offset base rem k"] le
    by simp
  then show ?case
    using Suc by (simp add: indices_read_def nth_worker_def)
qed

lemma indices_read_partition:
  "0 < K \<Longrightarrow> indices_read (partition_workers n K) = [0..<n]"
  by (simp add: partition_workers_def indices_read_upto block_offset_total)

lemma sum_sizes_upto:
  "(\<Sum>w\<leftarrow>map (nth_worker base rem) [0..<k]. be w - bs w) = block_offset base rem k"
proof (induction k)
  case 0
  then show ?case by simp
next
  case (Suc k)
  have le: "block_offset base rem k \<le> block_offset base rem (Suc k)"
    by (rule block_offset_mono) simp
  then show ?case
    using Suc by (simp add: nth_worker_def)
qed

lemma engine_nonempty:
  assumes "xs \<noteq> []" and "0 < K"
  shows "manual_parallel_transform_reduce xs init op f K =
     Some (foldl op init (map (block_value xs op f) (partition_workers (length xs) (min K (length xs)))))"
  by (simp add: manual_parallel_transform_reduce_def run_nonempty [OF assms])

lemma engine_degenerate:
  "xs = [] \<or> K = 0 \<Longrightarrow> manual_parallel_transform_reduce xs init op f K = Some init"
  by (simp add: manual_parallel_transform_reduce_def run_degenerate)

lemma engine_sequential:
  assumes assoc: "\<forall>a b c. op (op a b) c = op a (op b c)" and neutral: "\<forall>a. op a 0 = a"
    and K: "0 < K"
  shows "manual_parallel_transform_reduce xs init op f K = Some (transform_reduce xs init op f)"
proof (cases "xs = []")
  case True
  then show ?thesis by (simp add: engine_degenerate)
next
  case False
  let ?ws = "partition_workers (length xs) (min K (length xs))"
  have pos: "0 < min K (length xs)" using False K by simp
  have "foldl op init (map (block_value xs op f) ?ws) =
        foldl op init (map (\<lambda>ys. transform_reduce ys 0 op f) (map (block_elems xs) ?ws))"
    by (simp add: comp_def block_value_def [abs_def])
  also have "\<dots> = transform_reduce (concat (map (block_elems xs) ?ws)) init op f"
    by (rule merge_blocks [OF assoc neutral])
  also have "\<dots> = transform_reduce xs init op f"
    by (simp add: concat_partition [OF pos])
  finally show ?thesis
    by (simp add: engine_nonempty [OF False K])
qed

subsection \<open>The order in which the workers finish\<close>

text \<open>
  The workers of a call run concurrently. Each one writes only its own slot of
  \<^verbatim>\<open>partials\<close> and only reads the sequence, so the vector after the joins is the same for
  every order in which the workers complete: \<open>join_all\<close> gives the same result on every
  permutation \<open>sched\<close> of the threads.
\<close>

lemma upd_commute:
  assumes "distinct (map slot ws)" and "x \<in> set ws" and "y \<in> set ws"
  shows "(\<lambda>p. p[slot x := v x]) \<circ> (\<lambda>p. p[slot y := v y]) =
         (\<lambda>p. p[slot y := v y]) \<circ> (\<lambda>p. p[slot x := v x])"
proof (cases "x = y")
  case True
  then show ?thesis by simp
next
  case False
  have "inj_on slot (set ws)" using assms(1) by (simp add: distinct_map)
  then have "slot x \<noteq> slot y" using False assms(2,3) by (auto dest: inj_onD)
  then show ?thesis by (auto simp: fun_eq_iff list_update_swap)
qed

lemma join_all_schedule:
  assumes "distinct (map slot ws)"
    and "\<forall>w\<in>set ws. worker_ok (length xs) (length ps) w"
    and "mset sched = mset ws"
  shows "join_all xs op f sched ps = join_all xs op f ws ps"
proof -
  have s: "set sched = set ws" using assms(3) by (rule mset_eq_setD)
  have ok: "\<forall>w\<in>set sched. worker_ok (length xs) (length ps) w" using assms(2) s by simp
  have "fold (\<lambda>w p. p[slot w := block_value xs op f w]) sched ps =
        fold (\<lambda>w p. p[slot w := block_value xs op f w]) ws ps"
    using fold_multiset_equiv [of sched "\<lambda>w p. p[slot w := block_value xs op f w]" ws]
      upd_commute [OF assms(1), of _ _ "block_value xs op f"] assms(3) s
    by simp
  then show ?thesis
    by (simp add: join_all_fold [OF ok] join_all_fold [OF assms(2)])
qed

lemma partition_workers_slots: "map slot (partition_workers n K) = [0..<K]"
  by (simp add: partition_workers_def nth_worker_def comp_def map_idI)

lemma engine_schedule:
  assumes "0 < K" and "mset sched = mset (partition_workers (length xs) K)"
  shows "join_all xs op f sched (replicate K 0) =
           Some (map (block_value xs op f) (partition_workers (length xs) K))"
proof -
  have d: "distinct (map slot (partition_workers (length xs) K))"
    by (simp add: partition_workers_slots)
  have ok: "\<forall>w\<in>set (partition_workers (length xs) K).
              worker_ok (length xs) (length (replicate K (0::'b))) w"
    using assms(1) by (auto simp: partition_workers_def nth_worker_ok block_offset_total)
  show ?thesis
    using join_all_schedule [OF d ok assms(2), of op f] join_all_partition [OF assms(1), of xs op f]
    by simp
qed

subsection \<open>Blocks as index ranges\<close>

lemma block_offset_strict:
  "0 < base \<Longrightarrow> block_offset base rem i < block_offset base rem (Suc i)"
  by (simp add: block_offset_Suc)

lemma block_covering:
  "j < block_offset base rem k \<Longrightarrow>
   \<exists>i<k. block_offset base rem i \<le> j \<and> j < block_offset base rem (Suc i)"
proof (induction k)
  case 0
  then show ?case by simp
next
  case (Suc k)
  show ?case
  proof (cases "j < block_offset base rem k")
    case True
    then obtain i where "i < k" "block_offset base rem i \<le> j" "j < block_offset base rem (Suc i)"
      using Suc.IH by blast
    then show ?thesis using less_Suc_eq by blast
  next
    case False
    then show ?thesis using Suc.prems by auto
  qed
qed

lemma block_disjoint:
  assumes "block_offset base rem i \<le> j" and "j < block_offset base rem (Suc i)"
    and "block_offset base rem i' \<le> j" and "j < block_offset base rem (Suc i')"
  shows "i = i'"
proof (rule ccontr)
  assume "i \<noteq> i'"
  then consider "Suc i \<le> i'" | "Suc i' \<le> i" by linarith
  then show False
  proof cases
    case 1
    then show False
      using block_offset_mono [of "Suc i" i' base rem] assms by linarith
  next
    case 2
    then show False
      using block_offset_mono [of "Suc i'" i base rem] assms by linarith
  qed
qed

lemma floor_quotient: "\<lfloor>real n / real K\<rfloor> = int (n div K)"
  by (simp add: floor_divide_of_nat_eq)

lemma ceiling_quotient:
  assumes "0 < K" and "n mod K \<noteq> 0"
  shows "\<lceil>real n / real K\<rceil> = int (n div K) + 1"
proof -
  have n: "real n = real K * real (n div K) + real (n mod K)"
    by (metis of_nat_add of_nat_mult mult_div_mod_eq)
  have Kp: "0 < real K" using assms(1) by simp
  have lo: "0 < real (n mod K)" using assms(2) by simp
  have hi: "real (n mod K) < real K" using assms(1) by simp
  have q: "real n / real K = real (n div K) + real (n mod K) / real K"
    using Kp by (subst n) (simp add: field_simps)
  have "0 < real (n mod K) / real K" and "real (n mod K) / real K < 1"
    using lo hi Kp by simp_all
  then have "real_of_int (int (n div K)) < real n / real K"
    and "real n / real K \<le> real_of_int (int (n div K) + 1)"
    using q by simp_all
  then show ?thesis by (simp add: ceiling_eq)
qed

lemma ceiling_quotient_exact:
  assumes "0 < K" and "n mod K = 0"
  shows "\<lceil>real n / real K\<rceil> = int (n div K)"
proof -
  have "n = K * (n div K)" using assms(2) by auto
  then have "real n = real K * real (n div K)" by (metis of_nat_mult)
  then have "real n / real K = real (n div K)" using assms(1) by simp
  then show ?thesis by simp
qed

subsection \<open>The selection loop\<close>

text \<open>
  What the loop of lines 149-167 leaves in \<^verbatim>\<open>best_time\<close> and \<^verbatim>\<open>best_K\<close>: either the
  values it started with, when no time from \<open>K\<close> on was below \<^verbatim>\<open>best_time\<close>, or the
  first \<open>K\<close> with the smallest time. In particular \<open>sweep_no_time_below\<close>: a table with no
  time below the initial \<^verbatim>\<open>best_time\<close> of \<open>10 ^ 18\<close> milliseconds leaves \<^verbatim>\<open>best_K = 1\<close>.
\<close>

lemma sweep_loop_result:
  "sweep_loop t hi K bt bk = (bt', bk') \<Longrightarrow>
     bt' \<le> bt \<and> (\<forall>j. K \<le> j \<and> j \<le> hi \<longrightarrow> bt' \<le> t j) \<and>
     ((bt', bk') = (bt, bk) \<or>
      (K \<le> bk' \<and> bk' \<le> hi \<and> bt' = t bk' \<and> bt' < bt \<and> (\<forall>j. K \<le> j \<and> j < bk' \<longrightarrow> bt' < t j)))"
proof (induction t hi K bt bk rule: sweep_loop.induct)
  case (1 t hi K bt bk)
  show ?case
  proof (cases "K \<le> hi")
    case False
    then show ?thesis using "1.prems" by (simp add: sweep_loop.simps)
  next
    case le: True
    show ?thesis
    proof (cases "t K < bt")
      case True
      then have "sweep_loop t hi (K + 1) (t K) K = (bt', bk')"
        using "1.prems" le by (subst (asm) sweep_loop.simps) simp
      from "1.IH"(1) [OF le True this]
      have a: "bt' \<le> t K" and b: "\<forall>j. K + 1 \<le> j \<and> j \<le> hi \<longrightarrow> bt' \<le> t j"
        and c: "(bt', bk') = (t K, K) \<or>
          (K + 1 \<le> bk' \<and> bk' \<le> hi \<and> bt' = t bk' \<and> bt' < t K \<and>
           (\<forall>j. K + 1 \<le> j \<and> j < bk' \<longrightarrow> bt' < t j))"
        by blast+
      have all: "\<forall>j. K \<le> j \<and> j \<le> hi \<longrightarrow> bt' \<le> t j"
      proof (intro allI impI)
        fix j assume "K \<le> j \<and> j \<le> hi"
        then consider "j = K" | "K + 1 \<le> j \<and> j \<le> hi" by linarith
        then show "bt' \<le> t j" using a b by cases auto
      qed
      have sel: "K \<le> bk' \<and> bk' \<le> hi \<and> bt' = t bk' \<and> bt' < bt \<and>
                 (\<forall>j. K \<le> j \<and> j < bk' \<longrightarrow> bt' < t j)"
        using c
      proof
        assume "(bt', bk') = (t K, K)"
        then show ?thesis using le True by simp
      next
        assume r: "K + 1 \<le> bk' \<and> bk' \<le> hi \<and> bt' = t bk' \<and> bt' < t K \<and>
           (\<forall>j. K + 1 \<le> j \<and> j < bk' \<longrightarrow> bt' < t j)"
        have "bt' < t j" if "K \<le> j \<and> j < bk'" for j
        proof (cases "j = K")
          case True
          then show ?thesis using r by simp
        next
          case False
          then have "K + 1 \<le> j \<and> j < bk'" using that by simp
          then show ?thesis using r by blast
        qed
        then show ?thesis using r True by auto
      qed
      show ?thesis using a True all sel by auto
    next
      case False
      then have "sweep_loop t hi (K + 1) bt bk = (bt', bk')"
        using "1.prems" le by (subst (asm) sweep_loop.simps) simp
      from "1.IH"(2) [OF le False this]
      have a: "bt' \<le> bt" and b: "\<forall>j. K + 1 \<le> j \<and> j \<le> hi \<longrightarrow> bt' \<le> t j"
        and c: "(bt', bk') = (bt, bk) \<or>
          (K + 1 \<le> bk' \<and> bk' \<le> hi \<and> bt' = t bk' \<and> bt' < bt \<and>
           (\<forall>j. K + 1 \<le> j \<and> j < bk' \<longrightarrow> bt' < t j))"
        by blast+
      have all: "\<forall>j. K \<le> j \<and> j \<le> hi \<longrightarrow> bt' \<le> t j"
      proof (intro allI impI)
        fix j assume "K \<le> j \<and> j \<le> hi"
        then consider "j = K" | "K + 1 \<le> j \<and> j \<le> hi" by linarith
        then show "bt' \<le> t j" using a b False by cases auto
      qed
      have sel: "(bt', bk') = (bt, bk) \<or>
          (K \<le> bk' \<and> bk' \<le> hi \<and> bt' = t bk' \<and> bt' < bt \<and>
           (\<forall>j. K \<le> j \<and> j < bk' \<longrightarrow> bt' < t j))"
        using c
      proof
        assume "(bt', bk') = (bt, bk)"
        then show ?thesis by simp
      next
        assume r: "K + 1 \<le> bk' \<and> bk' \<le> hi \<and> bt' = t bk' \<and> bt' < bt \<and>
           (\<forall>j. K + 1 \<le> j \<and> j < bk' \<longrightarrow> bt' < t j)"
        have "bt' < t j" if "K \<le> j \<and> j < bk'" for j
        proof (cases "j = K")
          case True
          then show ?thesis using r False by simp
        next
          case False
          then have "K + 1 \<le> j \<and> j < bk'" using that by simp
          then show ?thesis using r by blast
        qed
        then show ?thesis using r by auto
      qed
      show ?thesis using a all sel by blast
    qed
  qed
qed

lemma sweep_limit_no_wrap:
  assumes "unat hc < 2 ^ 31"
  shows "sweep_limit (hardware_threads hc) = 2 * unat (hardware_threads hc)"
proof -
  have "unat (hardware_threads hc) < 2 ^ 31"
    using assms by (simp add: hardware_threads_def)
  then have "unat (hardware_threads hc) * 2 < 2 ^ 32" by simp
  then have "unat (hardware_threads hc * 2) = unat (hardware_threads hc) * 2"
    by (simp add: unat_word_ariths)
  then show ?thesis by (simp add: sweep_limit_def)
qed

lemma sweep_table_set:
  "(K, time) \<in> set (sweep_table hc t) \<longleftrightarrow>
     1 \<le> K \<and> K \<le> sweep_limit (hardware_threads hc) \<and> time = t K"
  by (auto simp: sweep_table_def)

lemma sweep_no_time_below:
  assumes "\<forall>(K, time) \<in> set (sweep_table hc t). \<not> time < 10 ^ 18"
  shows "sweep hc t = (10 ^ 18, 1)"
proof -
  obtain bt bk where r: "sweep_loop t (sweep_limit (hardware_threads hc)) 1 (10 ^ 18) 1 = (bt, bk)"
    by (cases "sweep_loop t (sweep_limit (hardware_threads hc)) 1 (10 ^ 18) 1") auto
  from sweep_loop_result [OF r]
  have "(bt, bk) = (10 ^ 18, 1) \<or>
        (1 \<le> bk \<and> bk \<le> sweep_limit (hardware_threads hc) \<and> bt = t bk \<and> bt < 10 ^ 18)"
    by blast
  moreover have "\<not> t bk < 10 ^ 18"
    if "1 \<le> bk \<and> bk \<le> sweep_limit (hardware_threads hc)"
    using assms that sweep_table_set [of bk "t bk" hc t] by blast
  ultimately have "(bt, bk) = (10 ^ 18, 1)" by auto
  then show ?thesis using r by (simp add: sweep_def)
qed

subsection \<open>The blocks of a call, written out\<close>

lemma partition_workers_explicit:
  "partition_workers n K =
     map (\<lambda>i. \<lparr>slot = i, bs = block_offset (n div K) (n mod K) i,
                  be = block_offset (n div K) (n mod K) (Suc i)\<rparr>) [0..<K]"
  by (simp add: partition_workers_def nth_worker_def)

lemma block_values_explicit:
  "map (block_value xs op f) (partition_workers n K) =
     map (\<lambda>i. transform_reduce
                  (take (block_offset (n div K) (n mod K) (Suc i) - block_offset (n div K) (n mod K) i)
                     (drop (block_offset (n div K) (n mod K) i) xs)) 0 op f)
       [0..<K]"
  by (simp add: partition_workers_def block_value_def [abs_def] block_elems_def nth_worker_def
      comp_def)

subsection \<open>The claims\<close>

text \<open>
  C5. On the empty sequence the engine returns the initial value \<open>v\<close> unchanged for every
  \<open>K\<close>, operation and transform; on any sequence it returns \<open>v\<close> unchanged when
  \<open>K = 0\<close>. In both cases no worker is spawned (the vector of threads is empty), so no
  index of the sequence is read.
\<close>

theorem degenerate_returns_init:
  "manual_parallel_transform_reduce [] v op f K = Some v \<and>
   manual_parallel_transform_reduce xs v op f 0 = Some v \<and>
   manual_parallel_transform_reduce_run [] v op f K =
     Some \<lparr>threads = [], partials = [], result = v\<rparr> \<and>
   manual_parallel_transform_reduce_run xs v op f 0 =
     Some \<lparr>threads = [], partials = [], result = v\<rparr> \<and>
   map_option (indices_read \<circ> threads) (manual_parallel_transform_reduce_run [] v op f K) =
     Some [] \<and>
   map_option (indices_read \<circ> threads) (manual_parallel_transform_reduce_run xs v op f 0) =
     Some []"
  by (simp add: engine_degenerate run_degenerate indices_read_def)

text \<open>
  C8. On \<open>[1, 2, 3, 4, 5]\<close> with addition, squaring and initial value \<open>0\<close>: for
  \<open>K = 2\<close> the blocks are \<open>[0, 3)\<close> and \<open>[3, 5)\<close>, the partial results \<open>14\<close> and
  \<open>41\<close>, the result \<open>55\<close>; and the result is \<open>55\<close> for each \<open>K\<close> from 1 to 5.
  The elements are integers here; every value of the example is an integer that the
  \<^verbatim>\<open>double\<close> of \<^verbatim>\<open>main\<close> holds exactly.
\<close>

theorem squares_example:
  "manual_parallel_transform_reduce_run [1, 2, 3, 4, 5 :: int] 0 (+) (\<lambda>x. x * x) 2 =
     Some \<lparr>threads = [\<lparr>slot = 0, bs = 0, be = 3\<rparr>, \<lparr>slot = 1, bs = 3, be = 5\<rparr>],
           partials = [14, 41], result = 55\<rparr> \<and>
   manual_parallel_transform_reduce [1, 2, 3, 4, 5 :: int] 0 (+) (\<lambda>x. x * x) 1 = Some 55 \<and>
   manual_parallel_transform_reduce [1, 2, 3, 4, 5 :: int] 0 (+) (\<lambda>x. x * x) 2 = Some 55 \<and>
   manual_parallel_transform_reduce [1, 2, 3, 4, 5 :: int] 0 (+) (\<lambda>x. x * x) 3 = Some 55 \<and>
   manual_parallel_transform_reduce [1, 2, 3, 4, 5 :: int] 0 (+) (\<lambda>x. x * x) 4 = Some 55 \<and>
   manual_parallel_transform_reduce [1, 2, 3, 4, 5 :: int] 0 (+) (\<lambda>x. x * x) 5 = Some 55"
  by code_simp

text \<open>
  C1. For every sequence, initial value and transform, every associative combine
  operation that has \<^verbatim>\<open>T{}\<close> as neutral element (only \<open>op a 0 = a\<close> is needed) and
  every \<open>K \<ge> 1\<close>, the engine returns the sequential left fold of the operation over the
  transformed elements, started from the initial value; so every \<open>K' \<ge> 1\<close> gives the
  same value.
\<close>

theorem engine_refines_sequential_fold:
  assumes "\<forall>a b c. op (op a b) c = op a (op b c)" and "\<forall>a. op a 0 = a" and "1 \<le> K"
  shows "manual_parallel_transform_reduce xs init op f K =
           Some (sequential_left_fold xs init op f) \<and>
         (\<forall>K'\<ge>1. manual_parallel_transform_reduce xs init op f K' =
                  manual_parallel_transform_reduce xs init op f K)"
proof -
  have fold_eq: "transform_reduce xs init op f = sequential_left_fold xs init op f"
    by (simp add: transform_reduce_assoc [OF assms(1)] sequential_left_fold_def foldl_map)
  have any: "manual_parallel_transform_reduce xs init op f k =
      Some (sequential_left_fold xs init op f)" if "1 \<le> k" for k
    using engine_sequential [OF assms(1) assms(2), of k xs init f] that fold_eq by simp
  show ?thesis
    using any [OF assms(3)] any by simp
qed

theorem engine_refines_sequential_fold_witness:
  "manual_parallel_transform_reduce [3, 1, 4, 1, 5 :: int] 7 (+) (\<lambda>x. 2 * x) 3 = Some 35 \<and>
   sequential_left_fold [3, 1, 4, 1, 5 :: int] 7 (+) (\<lambda>x. 2 * x) = 35 \<and>
   manual_parallel_transform_reduce [3, 1, 4, 1, 5 :: int] 7 (+) (\<lambda>x. 2 * x) 2 =
     manual_parallel_transform_reduce [3, 1, 4, 1, 5 :: int] 7 (+) (\<lambda>x. 2 * x) 3"
proof -
  have a: "\<forall>a b c :: int. (a + b) + c = a + (b + c)" by simp
  have n: "\<forall>a :: int. a + 0 = a" by simp
  have k: "(1::nat) \<le> 3" by simp
  have v: "sequential_left_fold [3, 1, 4, 1, 5 :: int] 7 (+) (\<lambda>x. 2 * x) = 35"
    by (simp add: sequential_left_fold_def)
  show ?thesis
    using engine_refines_sequential_fold [OF a n k, of "[3, 1, 4, 1, 5]" 7 "\<lambda>x. 2 * x"] v
    by simp
qed

text \<open>
  C7. For every sequence, initial value, transform and \<open>K\<close>, and every associative
  combine operation with identity value \<open>e\<close> (only \<open>op a e = a\<close> is needed, and \<open>e\<close>
  need not be \<^verbatim>\<open>T{}\<close>): the engine called with the initial value returns the combine of
  the initial value with what the engine returns when called with \<open>e\<close>. It holds for
  \<open>K = 0\<close> as for the \<open>K \<ge> 1\<close> of the claim.
\<close>

theorem initial_value_factors_out:
  assumes "\<forall>a b c. op (op a b) c = op a (op b c)" and "\<forall>a. op a e = a"
  shows "\<exists>v. manual_parallel_transform_reduce xs e op f K = Some v \<and>
             manual_parallel_transform_reduce xs init op f K = Some (op init v)"
proof (cases "xs = [] \<or> K = 0")
  case True
  then show ?thesis using assms(2) by (simp add: engine_degenerate)
next
  case False
  then have ne: "xs \<noteq> []" and K: "0 < K" by simp_all
  show ?thesis
    using foldl_op_shift [OF assms(1), of init e] assms(2)
    by (simp add: engine_nonempty [OF ne K])
qed

theorem initial_value_factors_out_witness:
  "manual_parallel_transform_reduce [1, 2, 3 :: int] 0 (+) (\<lambda>x. x * x) 2 = Some 14 \<and>
   manual_parallel_transform_reduce [1, 2, 3 :: int] 10 (+) (\<lambda>x. x * x) 2 = Some (10 + 14)"
proof -
  have a: "\<forall>a b c :: int. (a + b) + c = a + (b + c)" by simp
  have n: "\<forall>a :: int. a + 0 = a" by simp
  have v: "manual_parallel_transform_reduce [1, 2, 3 :: int] 0 (+) (\<lambda>x. x * x) 2 = Some 14"
    by code_simp
  show ?thesis
    using initial_value_factors_out [OF a n, of "[1, 2, 3]" "\<lambda>x. x * x" 2 10] v
    by simp
qed

text \<open>
  C6. For a sequence of length \<open>n > 0\<close> and a requested \<open>K \<ge> 1\<close>, the engine spawns
  \<open>min K n\<close> workers and has \<open>min K n\<close> partial results; and for \<open>K > n\<close> the call
  leaves the same threads, partial results and returned value as the call with \<open>K = n\<close>.
\<close>

theorem effective_worker_count:
  assumes "xs \<noteq> []" and "1 \<le> K"
  shows "(\<exists>r. manual_parallel_transform_reduce_run xs init op f K = Some r \<and>
              length (threads r) = min K (length xs) \<and>
              length (partials r) = min K (length xs)) \<and>
         (length xs < K \<longrightarrow>
            manual_parallel_transform_reduce_run xs init op f K =
              manual_parallel_transform_reduce_run xs init op f (length xs) \<and>
            manual_parallel_transform_reduce xs init op f K =
              manual_parallel_transform_reduce xs init op f (length xs))"
proof -
  have K: "0 < K" using assms(2) by simp
  have n: "0 < length xs" using assms(1) by simp
  have len: "length (partition_workers (length xs) (min K (length xs))) = min K (length xs)"
    by (simp add: partition_workers_def)
  have count: "\<exists>r. manual_parallel_transform_reduce_run xs init op f K = Some r \<and>
              length (threads r) = min K (length xs) \<and>
              length (partials r) = min K (length xs)"
    unfolding run_nonempty [OF assms(1) K] using len by simp
  have clamp: "manual_parallel_transform_reduce_run xs init op f K =
      manual_parallel_transform_reduce_run xs init op f (length xs)" if "length xs < K"
    unfolding run_nonempty [OF assms(1) K] run_nonempty [OF assms(1) n] using that
    by (simp add: min_def)
  show ?thesis
    using count clamp by (simp add: manual_parallel_transform_reduce_def)
qed

theorem effective_worker_count_witness:
  "(\<exists>r. manual_parallel_transform_reduce_run [1, 2, 3 :: int] 4 (+) (\<lambda>x. x * x) 7 = Some r \<and>
        length (threads r) = 3 \<and> length (partials r) = 3) \<and>
   manual_parallel_transform_reduce [1, 2, 3 :: int] 4 (+) (\<lambda>x. x * x) 7 =
     manual_parallel_transform_reduce [1, 2, 3 :: int] 4 (+) (\<lambda>x. x * x) 3"
proof -
  have ne: "[1, 2, 3 :: int] \<noteq> []" by simp
  have k: "(1::nat) \<le> 7" by simp
  have l: "length [1, 2, 3 :: int] = 3" by simp
  have m: "min (7::nat) 3 = 3" and lt: "(3::nat) < 7" by simp_all
  show ?thesis
    using effective_worker_count [OF ne k, of 4 "(+)" "\<lambda>x. x * x", unfolded l m] lt
    by blast
qed

text \<open>
  C2. For \<open>n \<ge> 1\<close> and \<open>1 \<le> K \<le> n\<close> the loop of the engine, run with
  \<open>base = n div K\<close> and \<open>rem = n mod K\<close>, spawns exactly \<open>K\<close> workers, and these are the
  threads of a call on a sequence of length \<open>n\<close>. Block \<open>i\<close> has \<open>base + 1\<close> elements
  if \<open>i < rem\<close> and \<open>base\<close> otherwise; it is not empty and ends within the sequence; its
  size is the floor or the ceiling of \<open>n / K\<close>. The first block starts at index 0, each
  block starts where the one before ends, and the last ends at \<open>n\<close>; the indices of the
  blocks, in order, are exactly \<open>0, 1, \<dots>, n - 1\<close>, so every index below \<open>n\<close> lies in
  exactly one block; and the sizes sum to \<open>n\<close>.
\<close>

theorem partition_blocks:
  assumes "length xs = n" and "1 \<le> K" and "K \<le> n"
  shows "\<exists>ws. spawn_loop n K (n div K) (n mod K) 0 0 [] = Some ws \<and>
      map_option threads (manual_parallel_transform_reduce_run xs init op f K) = Some ws \<and>
      length ws = K \<and>
      (\<forall>i<K. slot (ws ! i) = i \<and>
             be (ws ! i) - bs (ws ! i) = n div K + (if i < n mod K then 1 else 0) \<and>
             bs (ws ! i) < be (ws ! i) \<and> be (ws ! i) \<le> n \<and>
             (int (be (ws ! i) - bs (ws ! i)) = \<lfloor>real n / real K\<rfloor> \<or>
              int (be (ws ! i) - bs (ws ! i)) = \<lceil>real n / real K\<rceil>)) \<and>
      bs (ws ! 0) = 0 \<and>
      (\<forall>i. Suc i < K \<longrightarrow> bs (ws ! Suc i) = be (ws ! i)) \<and>
      be (ws ! (K - 1)) = n \<and>
      indices_read ws = [0..<n] \<and>
      (\<forall>j<n. \<exists>!i. i < K \<and> bs (ws ! i) \<le> j \<and> j < be (ws ! i)) \<and>
      (\<Sum>w\<leftarrow>ws. be w - bs w) = n"
proof -
  let ?b = "n div K" and ?r = "n mod K"
  let ?ws = "partition_workers n K"
  have K: "0 < K" using assms(2) by simp
  have ne: "xs \<noteq> []" using assms K by auto
  have base: "0 < ?b" using assms(3) K by (simp add: div_greater_zero_iff)
  have total: "block_offset ?b ?r K = n" by (rule block_offset_total [OF K])
  have nth: "?ws ! i = nth_worker ?b ?r i" if "i < K" for i
    using that by (simp add: partition_workers_def)
  have c1: "spawn_loop n K ?b ?r 0 0 [] = Some ?ws" by (rule spawn_loop_partition [OF K])
  have c2: "map_option threads (manual_parallel_transform_reduce_run xs init op f K) = Some ?ws"
    using assms(1,3) by (simp add: run_nonempty [OF ne K] min_def)
  have c3: "length ?ws = K" by (simp add: partition_workers_def)
  have size: "be (?ws ! i) - bs (?ws ! i) = ?b + (if i < ?r then 1 else 0)" if "i < K" for i
    using that by (simp add: nth nth_worker_def block_offset_Suc)
  have round: "int (be (?ws ! i) - bs (?ws ! i)) = \<lfloor>real n / real K\<rfloor> \<or>
               int (be (?ws ! i) - bs (?ws ! i)) = \<lceil>real n / real K\<rceil>" if "i < K" for i
  proof (cases "i < ?r")
    case True
    then have "?r \<noteq> 0" by simp
    then show ?thesis
      using size [OF that] True ceiling_quotient [OF K] by simp
  next
    case False
    then show ?thesis
      using size [OF that] by (simp add: floor_quotient)
  qed
  have c4: "\<forall>i<K. slot (?ws ! i) = i \<and>
             be (?ws ! i) - bs (?ws ! i) = ?b + (if i < ?r then 1 else 0) \<and>
             bs (?ws ! i) < be (?ws ! i) \<and> be (?ws ! i) \<le> n \<and>
             (int (be (?ws ! i) - bs (?ws ! i)) = \<lfloor>real n / real K\<rfloor> \<or>
              int (be (?ws ! i) - bs (?ws ! i)) = \<lceil>real n / real K\<rceil>)"
  proof (intro allI impI conjI)
    fix i assume i: "i < K"
    show "slot (?ws ! i) = i" by (simp add: nth [OF i] nth_worker_def)
    show "be (?ws ! i) - bs (?ws ! i) = ?b + (if i < ?r then 1 else 0)" by (rule size [OF i])
    show "bs (?ws ! i) < be (?ws ! i)"
      using block_offset_strict [OF base, of ?r i] by (simp add: nth [OF i] nth_worker_def)
    show "be (?ws ! i) \<le> n"
      using block_offset_mono [of "Suc i" K ?b ?r] i total by (simp add: nth [OF i] nth_worker_def)
    show "int (be (?ws ! i) - bs (?ws ! i)) = \<lfloor>real n / real K\<rfloor> \<or>
          int (be (?ws ! i) - bs (?ws ! i)) = \<lceil>real n / real K\<rceil>"
      by (rule round [OF i])
  qed
  have c5: "bs (?ws ! 0) = 0" by (simp add: nth [OF K] nth_worker_def)
  have c6: "\<forall>i. Suc i < K \<longrightarrow> bs (?ws ! Suc i) = be (?ws ! i)"
    by (simp add: nth nth_worker_def)
  have c7: "be (?ws ! (K - 1)) = n"
    using K total by (simp add: nth nth_worker_def)
  have c8: "indices_read ?ws = [0..<n]" by (rule indices_read_partition [OF K])
  have c9: "\<forall>j<n. \<exists>!i. i < K \<and> bs (?ws ! i) \<le> j \<and> j < be (?ws ! i)"
  proof (intro allI impI)
    fix j assume "j < n"
    then have "j < block_offset ?b ?r K" by (simp add: total)
    then obtain i where i: "i < K" "block_offset ?b ?r i \<le> j" "j < block_offset ?b ?r (Suc i)"
      using block_covering by blast
    show "\<exists>!i. i < K \<and> bs (?ws ! i) \<le> j \<and> j < be (?ws ! i)"
    proof (rule ex1I [of _ i])
      show "i < K \<and> bs (?ws ! i) \<le> j \<and> j < be (?ws ! i)"
        using i by (simp add: nth nth_worker_def)
    next
      fix i' assume a: "i' < K \<and> bs (?ws ! i') \<le> j \<and> j < be (?ws ! i')"
      then have i': "i' < K" by simp
      have "block_offset ?b ?r i' \<le> j" "j < block_offset ?b ?r (Suc i')"
        using a by (simp_all add: nth [OF i'] nth_worker_def)
      then show "i' = i" using block_disjoint i(2,3) by blast
    qed
  qed
  have c10: "(\<Sum>w\<leftarrow>?ws. be w - bs w) = n"
    using sum_sizes_upto [of ?b ?r K] total by (simp add: partition_workers_def)
  show ?thesis
    by (intro exI [of _ ?ws] conjI c1 c2 c3 c4 c5 c6 c7 c8 c9 c10)
qed

theorem partition_blocks_witness:
  "\<exists>ws. spawn_loop 5 2 (5 div 2) (5 mod 2) 0 0 [] = Some ws \<and>
        map_option threads (manual_parallel_transform_reduce_run [1, 2, 3, 4, 5 :: int] 0 (+) (\<lambda>x. x * x) 2) =
          Some ws \<and>
        length ws = 2 \<and> indices_read ws = [0..<5] \<and>
        ws = [\<lparr>slot = 0, bs = 0, be = 3\<rparr>, \<lparr>slot = 1, bs = 3, be = 5\<rparr>]"
proof -
  have l: "length [1, 2, 3, 4, 5 :: int] = 5" by simp
  have k: "(1::nat) \<le> 2" and kn: "(2::nat) \<le> 5" by simp_all
  have v: "spawn_loop 5 2 (5 div 2) (5 mod 2) 0 0 [] =
      Some [\<lparr>slot = 0, bs = 0, be = 3\<rparr>, \<lparr>slot = 1, bs = 3, be = 5\<rparr>]"
    by code_simp
  obtain ws where s: "spawn_loop 5 2 (5 div 2) (5 mod 2) 0 0 [] = Some ws"
    and t: "map_option threads
              (manual_parallel_transform_reduce_run [1, 2, 3, 4, 5 :: int] 0 (+) (\<lambda>x. x * x) 2) =
            Some ws"
    and n: "length ws = 2" and c: "indices_read ws = [0..<5]"
    using partition_blocks [OF l k kn, of 0 "(+)" "\<lambda>x. x * x"] by (elim exE conjE)
  have e: "ws = [\<lparr>slot = 0, bs = 0, be = 3\<rparr>, \<lparr>slot = 1, bs = 3, be = 5\<rparr>]"
    using s unfolding v by simp
  show ?thesis
    by (intro exI [of _ ws] conjI s t n c e)
qed

text \<open>
  C4. For a non-empty sequence and \<open>K \<ge> 1\<close>, with \<open>Ke = min K n\<close> blocks: the threads are
  the blocks \<open>0, \<dots>, Ke - 1\<close> in this order, \<^verbatim>\<open>partials\<close> holds at each index \<open>i\<close> the
  transform-then-fold value of block \<open>i\<close>, and the returned value is the left fold of the
  combine operation over \<^verbatim>\<open>partials\<close> in increasing index order, started from the caller's
  initial value. No property of the operation is assumed. The witness merges with
  \<open>10 * a + b\<close>, for which the other order of the two partial results gives another value.
\<close>

theorem merge_in_block_order:
  assumes "xs \<noteq> []" and "1 \<le> K"
  shows "let Ke = min K (length xs); base = length xs div Ke; rem = length xs mod Ke in
         \<exists>r. manual_parallel_transform_reduce_run xs init op f K = Some r \<and>
             threads r = map (\<lambda>i. \<lparr>slot = i, bs = block_offset base rem i,
                                    be = block_offset base rem (Suc i)\<rparr>) [0..<Ke] \<and>
             partials r = map (\<lambda>i. transform_reduce (block_elems xs (threads r ! i)) 0 op f)
                            [0..<Ke] \<and>
             result r = foldl op init (partials r) \<and>
             manual_parallel_transform_reduce xs init op f K =
               Some (foldl op init
                 (map (\<lambda>i. transform_reduce
                              (take (block_offset base rem (Suc i) - block_offset base rem i)
                                 (drop (block_offset base rem i) xs)) 0 op f)
                    [0..<Ke]))"
proof -
  have K: "0 < K" using assms(2) by simp
  let ?Ke = "min K (length xs)"
  let ?ws = "partition_workers (length xs) ?Ke"
  have ws: "?ws = map (\<lambda>i. \<lparr>slot = i, bs = block_offset (length xs div ?Ke) (length xs mod ?Ke) i,
                 be = block_offset (length xs div ?Ke) (length xs mod ?Ke) (Suc i)\<rparr>) [0..<?Ke]"
    by (simp add: partition_workers_def nth_worker_def)
  have vals: "map (block_value xs op f) ?ws =
      map (\<lambda>i. transform_reduce (block_elems xs (?ws ! i)) 0 op f) [0..<?Ke]"
    by (rule nth_equalityI) (simp_all add: partition_workers_def block_value_def)
  have vals': "map (block_value xs op f) ?ws =
      map (\<lambda>i. transform_reduce
                   (take (block_offset (length xs div ?Ke) (length xs mod ?Ke) (Suc i) -
                          block_offset (length xs div ?Ke) (length xs mod ?Ke) i)
                      (drop (block_offset (length xs div ?Ke) (length xs mod ?Ke) i) xs)) 0 op f)
        [0..<?Ke]"
    by (rule nth_equalityI)
      (simp_all add: partition_workers_def block_value_def block_elems_def nth_worker_def)
  define r where "r = \<lparr>threads = ?ws, partials = map (block_value xs op f) ?ws,
            result = foldl op init (map (block_value xs op f) ?ws)\<rparr>"
  have run: "manual_parallel_transform_reduce_run xs init op f K = Some r"
    unfolding r_def by (rule run_nonempty [OF assms(1) K])
  have th: "threads r = ?ws" and pa: "partials r = map (block_value xs op f) ?ws"
    and re: "result r = foldl op init (partials r)"
    by (simp_all add: r_def)
  have eng: "manual_parallel_transform_reduce xs init op f K =
      Some (foldl op init (map (block_value xs op f) ?ws))"
    by (rule engine_nonempty [OF assms(1) K])
  show ?thesis
    unfolding Let_def
    using run th [unfolded ws] pa [unfolded vals, folded th] re eng [unfolded vals']
    by blast
qed

theorem merge_in_block_order_witness:
  "manual_parallel_transform_reduce [1, 2, 3, 4, 5, 6, 7, 8, 9 :: int] 7 (\<lambda>a b. 10 * a + b) (\<lambda>x. x) 2 =
     Some (foldl (\<lambda>a b. 10 * a + b) 7
       (map (\<lambda>i. transform_reduce
                    (take (block_offset 4 1 (Suc i) - block_offset 4 1 i)
                       (drop (block_offset 4 1 i) [1, 2, 3, 4, 5, 6, 7, 8, 9]))
                    0 (\<lambda>a b. 10 * a + b) (\<lambda>x. x))
          [0..<2])) \<and>
   manual_parallel_transform_reduce [1, 2, 3, 4, 5, 6, 7, 8, 9 :: int] 7 (\<lambda>a b. 10 * a + b) (\<lambda>x. x) 2 =
     Some (10 * (10 * 7 + 1545) + 759) \<and>
   10 * (10 * 7 + 1545) + 759 \<noteq> 10 * (10 * 7 + 759) + (1545 :: int)"
proof -
  have ne: "[1, 2, 3, 4, 5, 6, 7, 8, 9 :: int] \<noteq> []" by simp
  have k: "(1::nat) \<le> 2" by simp
  have m: "min 2 (length [1, 2, 3, 4, 5, 6, 7, 8, 9 :: int]) = 2"
    and b: "length [1, 2, 3, 4, 5, 6, 7, 8, 9 :: int] div 2 = 4"
    and r: "length [1, 2, 3, 4, 5, 6, 7, 8, 9 :: int] mod 2 = 1"
    by simp_all
  have v: "manual_parallel_transform_reduce [1, 2, 3, 4, 5, 6, 7, 8, 9 :: int] 7
             (\<lambda>a b. 10 * a + b) (\<lambda>x. x) 2 = Some (10 * (10 * 7 + 1545) + 759)"
    by code_simp
  have d: "10 * (10 * 7 + 1545) + 759 \<noteq> 10 * (10 * 7 + 759) + (1545 :: int)" by simp
  obtain rr where e: "manual_parallel_transform_reduce [1, 2, 3, 4, 5, 6, 7, 8, 9 :: int] 7
       (\<lambda>a b. 10 * a + b) (\<lambda>x. x) 2 =
     Some (foldl (\<lambda>a b. 10 * a + b) 7
       (map (\<lambda>i. transform_reduce
                    (take (block_offset 4 1 (Suc i) - block_offset 4 1 i)
                       (drop (block_offset 4 1 i) [1, 2, 3, 4, 5, 6, 7, 8, 9]))
                    0 (\<lambda>a b. 10 * a + b) (\<lambda>x. x))
          [0..<2]))"
    using merge_in_block_order [OF ne k, of 7 "\<lambda>a b. 10 * a + b" "\<lambda>x. x", unfolded Let_def m b r]
    by (elim exE conjE)
  show ?thesis by (intro conjI e v d)
qed

text \<open>
  C10. The engine has no parameter for an identity value. For every call and every combine
  operation, the threads are the blocks of the partition (none for an empty sequence or
  \<open>K = 0\<close>), and the partial result of block \<open>i\<close> is the library's transform-reduce of
  the elements of that block seeded with the value-initialized \<^verbatim>\<open>T{}\<close>, also when
  \<^verbatim>\<open>T{}\<close> is not neutral for the operation. On integers, with \<open>K = 2\<close>: the operation
  \<open>a + b + 1\<close>, whose neutral value is \<open>- 1\<close>, gives the partial results 5 and 4 on
  \<open>[1, 2, 3]\<close>; multiplication, whose neutral value is 1, gives 0 and 0 on \<open>[2, 3, 4]\<close>;
  addition gives 3 and 3 on \<open>[1, 2, 3]\<close>. Subtraction, which has no neutral value and is
  not associative, gives \<open>- 5\<close> on \<open>[1, 2, 3, 4, 5]\<close> with \<open>K = 1\<close>.
\<close>

theorem blocks_seeded_with_value_init:
  "(let Ke = min K (length xs); base = length xs div Ke; rem = length xs mod Ke in
    \<exists>r. manual_parallel_transform_reduce_run xs init op f K = Some r \<and>
        threads r = map (\<lambda>i. \<lparr>slot = i, bs = block_offset base rem i,
                               be = block_offset base rem (Suc i)\<rparr>) [0..<Ke] \<and>
        partials r =
          map (\<lambda>i. transform_reduce
                       (take (block_offset base rem (Suc i) - block_offset base rem i)
                          (drop (block_offset base rem i) xs)) 0 op f)
            [0..<Ke]) \<and>
   map_option partials
     (manual_parallel_transform_reduce_run [1, 2, 3 :: int] 7 (\<lambda>a b. a + b + 1) (\<lambda>x. x) 2) =
     Some [5, 4] \<and>
   map_option partials (manual_parallel_transform_reduce_run [2, 3, 4 :: int] 1 (*) (\<lambda>x. x) 2) =
     Some [0, 0] \<and>
   map_option partials (manual_parallel_transform_reduce_run [1, 2, 3 :: int] 7 (+) (\<lambda>x. x) 2) =
     Some [3, 3] \<and>
   map_option partials
     (manual_parallel_transform_reduce_run [1, 2, 3, 4, 5 :: int] 100 (-) (\<lambda>x. x) 1) =
     Some [- 5]"
proof -
  let ?Ke = "min K (length xs)"
  have gen: "\<exists>r. manual_parallel_transform_reduce_run xs init op f K = Some r \<and>
        threads r = map (\<lambda>i. \<lparr>slot = i, bs = block_offset (length xs div ?Ke) (length xs mod ?Ke) i,
                               be = block_offset (length xs div ?Ke) (length xs mod ?Ke) (Suc i)\<rparr>)
                      [0..<?Ke] \<and>
        partials r =
          map (\<lambda>i. transform_reduce
                       (take (block_offset (length xs div ?Ke) (length xs mod ?Ke) (Suc i) -
                              block_offset (length xs div ?Ke) (length xs mod ?Ke) i)
                          (drop (block_offset (length xs div ?Ke) (length xs mod ?Ke) i) xs)) 0 op f)
            [0..<?Ke]"
  proof (cases "xs = [] \<or> K = 0")
    case True
    then have "?Ke = 0" by auto
    then show ?thesis using True by (simp add: run_degenerate)
  next
    case False
    then have ne: "xs \<noteq> []" and K: "0 < K" by simp_all
    show ?thesis
      unfolding run_nonempty [OF ne K]
      using partition_workers_explicit [of "length xs" ?Ke]
        block_values_explicit [of xs op f "length xs" ?Ke]
      by simp
  qed
  have i1: "map_option partials
     (manual_parallel_transform_reduce_run [1, 2, 3 :: int] 7 (\<lambda>a b. a + b + 1) (\<lambda>x. x) 2) =
     Some [5, 4]"
    by code_simp
  have i2: "map_option partials (manual_parallel_transform_reduce_run [2, 3, 4 :: int] 1 (*) (\<lambda>x. x) 2) =
     Some [0, 0]"
    by code_simp
  have i3: "map_option partials (manual_parallel_transform_reduce_run [1, 2, 3 :: int] 7 (+) (\<lambda>x. x) 2) =
     Some [3, 3]"
    by code_simp
  have i4: "map_option partials
     (manual_parallel_transform_reduce_run [1, 2, 3, 4, 5 :: int] 100 (-) (\<lambda>x. x) 1) =
     Some [- 5]"
    by code_simp
  show ?thesis
    unfolding Let_def by (intro conjI gen i1 i2 i3 i4)
qed

text \<open>
  C3, as stated, fails for a combine operation whose neutral value is not \<^verbatim>\<open>T{}\<close>.
  Multiplication on integers has the neutral value 1. On \<open>[2, 3]\<close> with \<open>K = 1\<close> the fold
  of the only block seeded with 1 is 6, while the partial result of the engine is 0: the
  fold was seeded with \<^verbatim>\<open>T{}\<close>, which is 0.
\<close>

theorem seed_is_neutral_counterexample:
  "map_option partials (manual_parallel_transform_reduce_run [2, 3 :: int] 5 (*) id 1) = Some [0] \<and>
   transform_reduce [2, 3 :: int] 1 (*) id = 6 \<and>
   map_option partials (manual_parallel_transform_reduce_run [2, 3 :: int] 5 (*) id 1) \<noteq>
     Some [transform_reduce [2, 3 :: int] 1 (*) id]"
  by code_simp

text \<open>
  C3, amended. For a non-empty sequence and \<open>K \<ge> 1\<close>, each per-block fold is seeded with
  the value-initialized \<^verbatim>\<open>T{}\<close> and not with the caller's initial value: the partial
  results are the same for every initial value, and the initial value enters the result
  once, as the seed of the final merge over the partial results. When \<^verbatim>\<open>T{}\<close> is
  neutral for the combine operation, that seed is the neutral value of the operation
  (every neutral value \<open>e\<close> of the operation gives the same partial results).
\<close>

theorem initial_value_only_in_merge:
  assumes "xs \<noteq> []" and "1 \<le> K"
  shows "let Ke = min K (length xs); base = length xs div Ke; rem = length xs mod Ke in
         \<exists>r. manual_parallel_transform_reduce_run xs init op f K = Some r \<and>
             partials r =
               map (\<lambda>i. transform_reduce
                            (take (block_offset base rem (Suc i) - block_offset base rem i)
                               (drop (block_offset base rem i) xs)) 0 op f)
                 [0..<Ke] \<and>
             (\<forall>init'. map_option partials (manual_parallel_transform_reduce_run xs init' op f K) =
                       Some (partials r)) \<and>
             result r = foldl op init (partials r) \<and>
             ((\<forall>a. op a 0 = a \<and> op 0 a = a) \<longrightarrow>
                (\<forall>e. (\<forall>a. op a e = a \<and> op e a = a) \<longrightarrow>
                   partials r =
                     map (\<lambda>i. transform_reduce
                                  (take (block_offset base rem (Suc i) - block_offset base rem i)
                                     (drop (block_offset base rem i) xs)) e op f)
                       [0..<Ke]))"
proof -
  have K: "0 < K" using assms(2) by simp
  let ?Ke = "min K (length xs)"
  let ?ws = "partition_workers (length xs) ?Ke"
  define r where "r = \<lparr>threads = ?ws, partials = map (block_value xs op f) ?ws,
            result = foldl op init (map (block_value xs op f) ?ws)\<rparr>"
  have run: "manual_parallel_transform_reduce_run xs init op f K = Some r"
    unfolding r_def by (rule run_nonempty [OF assms(1) K])
  have pa: "partials r = map (block_value xs op f) ?ws" by (simp add: r_def)
  have c1: "partials r =
      map (\<lambda>i. transform_reduce
                   (take (block_offset (length xs div ?Ke) (length xs mod ?Ke) (Suc i) -
                          block_offset (length xs div ?Ke) (length xs mod ?Ke) i)
                      (drop (block_offset (length xs div ?Ke) (length xs mod ?Ke) i) xs)) 0 op f)
        [0..<?Ke]"
    unfolding pa by (rule block_values_explicit)
  have c2: "\<forall>init'. map_option partials (manual_parallel_transform_reduce_run xs init' op f K) =
                       Some (partials r)"
    by (simp add: run_nonempty [OF assms(1) K] pa)
  have c3: "result r = foldl op init (partials r)" by (simp add: r_def)
  have uniq: "e = 0" if "\<forall>a. op a 0 = a \<and> op 0 a = a" and "\<forall>a. op a e = a \<and> op e a = a" for e
    using that by metis
  have c4: "(\<forall>a. op a 0 = a \<and> op 0 a = a) \<longrightarrow>
                (\<forall>e. (\<forall>a. op a e = a \<and> op e a = a) \<longrightarrow>
                   partials r =
                     map (\<lambda>i. transform_reduce
                       (take (block_offset (length xs div ?Ke) (length xs mod ?Ke) (Suc i) -
                              block_offset (length xs div ?Ke) (length xs mod ?Ke) i)
                          (drop (block_offset (length xs div ?Ke) (length xs mod ?Ke) i) xs)) e op f)
                       [0..<?Ke])"
    using uniq c1 by blast
  show ?thesis
    unfolding Let_def by (intro exI [of _ r] conjI run c1 c2 c3 c4)
qed

theorem initial_value_only_in_merge_witness:
  "\<exists>r. manual_parallel_transform_reduce_run [1, 2, 3 :: int] 10 (+) (\<lambda>x. x * x) 2 = Some r \<and>
       partials r = [5, 9] \<and>
       map_option partials (manual_parallel_transform_reduce_run [1, 2, 3 :: int] 0 (+) (\<lambda>x. x * x) 2) =
         Some [5, 9] \<and>
       result r = foldl (+) 10 [5, 9]"
proof -
  have ne: "[1, 2, 3 :: int] \<noteq> []" by simp
  have k: "(1::nat) \<le> 2" by simp
  have v: "map_option partials (manual_parallel_transform_reduce_run [1, 2, 3 :: int] 0 (+) (\<lambda>x. x * x) 2) =
         Some [5, 9]"
    by code_simp
  obtain r where run: "manual_parallel_transform_reduce_run [1, 2, 3 :: int] 10 (+) (\<lambda>x. x * x) 2 = Some r"
    and ind: "\<forall>init'. map_option partials
                (manual_parallel_transform_reduce_run [1, 2, 3 :: int] init' (+) (\<lambda>x. x * x) 2) =
              Some (partials r)"
    and res: "result r = foldl (+) 10 (partials r)"
    using initial_value_only_in_merge [OF ne k, of 10 "(+)" "\<lambda>x. x * x", unfolded Let_def]
    by (elim exE conjE)
  have p: "partials r = [5, 9]" using ind [rule_format, of 0] v by simp
  show ?thesis
    by (intro exI [of _ r] conjI run p v res [unfolded p])
qed

text \<open>
  C9. The table of a sweep has one row \<open>(K, time)\<close> for each \<open>K\<close> of the loop, which are
  \<open>1, \<dots>, 2 \<times> hw\<close> in this order (when \<^verbatim>\<open>hw * 2\<close> does not wrap, that is below
  \<open>2 ^ 31\<close> hardware threads). The selection reports a \<^verbatim>\<open>best_K\<close> of the table whose
  recorded time is at most every recorded time of the table, and among the rows with
  that time it is the smallest \<open>K\<close>, the one met first. \<^verbatim>\<open>best_time\<close> starts at
  \<^verbatim>\<open>1e18\<close> milliseconds (more than thirty million years), so the property is stated for
  the tables in which some recorded time is below it, as every wall-clock duration that
  \<^verbatim>\<open>measure_ms\<close> can return is.
\<close>

theorem sweep_selects_first_minimum:
  assumes "\<exists>(K, time) \<in> set (sweep_table hc t). time < 10 ^ 18"
  shows "\<exists>best_time best_K. sweep hc t = (best_time, best_K) \<and>
           (best_K, best_time) \<in> set (sweep_table hc t) \<and>
           (\<forall>(K, time) \<in> set (sweep_table hc t).
              best_time \<le> time \<and> (time = best_time \<longrightarrow> best_K \<le> K)) \<and>
           (unat hc < 2 ^ 31 \<longrightarrow>
              map fst (sweep_table hc t) = [1..<Suc (2 * unat (hardware_threads hc))])"
proof -
  let ?hi = "sweep_limit (hardware_threads hc)"
  obtain bt bk where r: "sweep_loop t ?hi 1 (10 ^ 18) 1 = (bt, bk)"
    by (cases "sweep_loop t ?hi 1 (10 ^ 18) 1") auto
  from sweep_loop_result [OF r]
  have lower: "\<forall>j. 1 \<le> j \<and> j \<le> ?hi \<longrightarrow> bt \<le> t j"
    and sel: "(bt, bk) = (10 ^ 18, 1) \<or>
        (1 \<le> bk \<and> bk \<le> ?hi \<and> bt = t bk \<and> bt < 10 ^ 18 \<and> (\<forall>j. 1 \<le> j \<and> j < bk \<longrightarrow> bt < t j))"
    by blast+
  obtain K0 where K0: "1 \<le> K0" "K0 \<le> ?hi" "t K0 < 10 ^ 18"
    using assms by (auto simp: sweep_table_set)
  have "bt < 10 ^ 18" using lower K0 by fastforce
  then have chosen: "1 \<le> bk" "bk \<le> ?hi" "bt = t bk" and first: "\<forall>j. 1 \<le> j \<and> j < bk \<longrightarrow> bt < t j"
    using sel by auto
  have c1: "sweep hc t = (bt, bk)" using r by (simp add: sweep_def)
  have c2: "(bk, bt) \<in> set (sweep_table hc t)"
    using chosen by (simp add: sweep_table_set)
  have c3: "\<forall>(K, time) \<in> set (sweep_table hc t). bt \<le> time \<and> (time = bt \<longrightarrow> bk \<le> K)"
  proof (intro ballI, clarify)
    fix K time assume "(K, time) \<in> set (sweep_table hc t)"
    then have K: "1 \<le> K" "K \<le> ?hi" "time = t K" by (simp_all add: sweep_table_set)
    have "bk \<le> K" if "time = bt"
    proof (rule ccontr)
      assume "\<not> bk \<le> K"
      then have "bt < t K" using first K(1) by simp
      then show False using that K(3) by simp
    qed
    then show "bt \<le> time \<and> (time = bt \<longrightarrow> bk \<le> K)" using lower K by simp
  qed
  have c4: "unat hc < 2 ^ 31 \<longrightarrow>
      map fst (sweep_table hc t) = [1..<Suc (2 * unat (hardware_threads hc))]"
    by (simp add: sweep_table_def comp_def sweep_limit_no_wrap)
  show ?thesis
    by (intro exI [of _ bt] exI [of _ bk] conjI c1 c2 c3 c4)
qed

theorem sweep_selects_first_minimum_witness:
  "sweep 2 (\<lambda>K. [5, 3, 3, 4] ! (K - 1)) = (3, 2) \<and>
   sweep_table 2 (\<lambda>K. [5, 3, 3, 4] ! (K - 1)) = [(1, 5), (2, 3), (3, 3), (4, 4)]"
proof -
  let ?t = "\<lambda>K. [5, 3, 3, 4 :: real] ! (K - 1)"
  have tab: "sweep_table 2 ?t = [(1, 5), (2, 3), (3, 3), (4, 4)]"
    by code_simp
  have h: "\<exists>(K, time) \<in> set (sweep_table 2 ?t). time < 10 ^ 18"
    unfolding tab by simp
  obtain bt bk where s: "sweep 2 ?t = (bt, bk)" and m: "(bk, bt) \<in> set (sweep_table 2 ?t)"
    and a: "\<forall>(K, time) \<in> set (sweep_table 2 ?t). bt \<le> time \<and> (time = bt \<longrightarrow> bk \<le> K)"
    using sweep_selects_first_minimum [OF h] by (elim exE conjE)
  have "bt \<le> 3" using a unfolding tab by simp
  then have "(bk, bt) = (2, 3)" using m a unfolding tab by auto
  then show ?thesis using s tab by simp
qed

end
